theory Spec2Isabelle
  imports Complex_Main "HOL-Library.Monad_Syntax"
begin

section \<open>Thread composition (dashboard/src/App.tsx)\<close>

subsection \<open>Data\<close>

text \<open>
  The argument of \<open>buildThreadForEntry\<close> is typed
  \<^verbatim>\<open>{ trailingText: string; images: string[] }\<close> and may be \<open>null\<close> (the component's
  initial state), which is \<open>None\<close> here. Each element of the returned array is the object
  literal \<^verbatim>\<open>{ images, text, index, total }\<close>. The field \<open>text\<close> is written \<open>text'\<close>
  because \<open>text\<close> is a keyword of the theory language, and \<open>total\<close> is written
  \<open>total'\<close> because HOL has a constant of that name. Indices and lengths are array
  indices, so they are natural numbers.
\<close>

record entryData =
  images :: "string list"
  trailingText :: string

record post =
  images :: "string list"
  text' :: string
  index :: nat
  total' :: nat

subsection \<open>chunkArray\<close>

text \<open>
  \<^verbatim>\<open>arr.slice(start, end)\<close> for indices that are natural numbers: the elements from
  \<open>start\<close> up to, not including, \<open>end\<close>, both clamped to the length of the array.
\<close>

definition slice :: "'a list \<Rightarrow> nat \<Rightarrow> nat \<Rightarrow> 'a list" where
  "slice arr start end' = take (end' - start) (drop start arr)"

text \<open>
  \<^verbatim>\<open>
  function chunkArray(arr: unknown[], size: number) {
    const out = [];
    for (let i = 0; i < arr.length; i += size) out.push(arr.slice(i, i + size));
    return out;
  }
  \<close>
  The loop does not end when \<open>size\<close> is \<open>0\<close> and the array is not empty, so the loop is a
  partial function: \<open>None\<close> is a run that never returns.
\<close>

partial_function (option) chunkArray_loop ::
  "'a list \<Rightarrow> nat \<Rightarrow> nat \<Rightarrow> 'a list list \<Rightarrow> 'a list list option" where
  "chunkArray_loop arr size' i out =
     (if i < length arr
      then chunkArray_loop arr size' (i + size') (out @ [slice arr i (i + size')])
      else Some out)"

declare chunkArray_loop.simps [code]

definition chunkArray :: "'a list \<Rightarrow> nat \<Rightarrow> 'a list list option" where
  "chunkArray arr size' = chunkArray_loop arr size' 0 []"

subsection \<open>buildThreadForEntry\<close>

text \<open>
  \<^verbatim>\<open>
  function buildThreadForEntry(entryData) {
    if (!entryData) return [];
    const chunks = chunkArray(entryData.images, 4);
    const posts = chunks.map((imgs, idx) => ({
      images: imgs,
      text: "",
      index: idx + 1,
      total: chunks.length + 1
    }));
    posts.push({ images: [], text: entryData.trailingText,
                 index: chunks.length + 1, total: chunks.length + 1 });
    return posts;
  }
  \<close>
\<close>

definition chunkPost :: "'a list \<Rightarrow> string list \<times> nat \<Rightarrow> post" where
  "chunkPost chunks = (\<lambda>(imgs, idx).
     \<lparr>images = imgs, text' = '''', index = idx + 1, total' = length chunks + 1\<rparr>)"

definition buildThreadForEntry :: "entryData option \<Rightarrow> post list option" where
  "buildThreadForEntry entryData =
     (case entryData of
        None \<Rightarrow> Some []
      | Some e \<Rightarrow>
          do {
            chunks \<leftarrow> chunkArray (entryData.images e) 4;
            let posts = map (chunkPost chunks) (zip chunks [0..<length chunks]);
            Some (posts @ [\<lparr>images = [], text' = trailingText e,
                             index = length chunks + 1, total' = length chunks + 1\<rparr>])
          })"

text \<open>
  The number of chunks that \<open>chunkArray\<close> produces for an entry's images, used to state
  the results below.
\<close>

definition chunkCount :: "entryData \<Rightarrow> nat" where
  "chunkCount e = (length (entryData.images e) + 3) div 4"

section \<open>Thread composition on the store\<close>

text \<open>
  The functions above compute with values. Arrays and objects of the program are mutable
  and shared: \<open>out.push\<close> and \<open>posts.push\<close> change an array in place, and the argument of
  \<open>buildThreadForEntry\<close> is a reference to an object that holds a reference to its array
  of images. To say what a call changes, the same two functions are written once more on
  a store of objects: an address is a position in the store, and a new object is put at
  the end.
\<close>

subsection \<open>Values and objects\<close>

type_synonym addr = nat

datatype val = VUndefined | VNull | VNum nat | VStr string | VRef addr

datatype obj = Array "val list" | Object "(string \<times> val) list"

type_synonym store = "obj list"

text \<open>
  The operations on the store that the two functions use, for the types that the source
  declares. \<open>elems\<close> and \<open>push\<close> are defined on a reference to an array and give
  \<open>None\<close> on any other value: on \<open>null\<close> and \<open>undefined\<close> the program throws a
  \<open>TypeError\<close>, and what it does with a number, a string or an object where the type
  says \<open>string[]\<close> is not modelled. \<open>get\<close> gives \<open>None\<close> for a property of \<open>null\<close>
  or \<open>undefined\<close>, a \<open>TypeError\<close>; a property that an object does not have is
  \<open>undefined\<close>.
\<close>

definition alloc :: "obj \<Rightarrow> store \<Rightarrow> store \<times> val" where
  "alloc ob h = (h @ [ob], VRef (length h))"

fun elems :: "store \<Rightarrow> val \<Rightarrow> val list option" where
  "elems h (VRef a) =
     (if a < length h then (case h ! a of Array xs \<Rightarrow> Some xs | Object fs \<Rightarrow> None) else None)"
| "elems h v = None"

fun get :: "store \<Rightarrow> val \<Rightarrow> string \<Rightarrow> val option" where
  "get h (VRef a) k =
     (if a < length h
      then (case h ! a of
              Object fs \<Rightarrow> (case map_of fs k of None \<Rightarrow> Some VUndefined | Some v \<Rightarrow> Some v)
            | Array xs \<Rightarrow> Some VUndefined)
      else None)"
| "get h VUndefined k = None"
| "get h VNull k = None"
| "get h v k = Some VUndefined"

fun push :: "store \<Rightarrow> val \<Rightarrow> val \<Rightarrow> store option" where
  "push h (VRef a) x =
     (if a < length h
      then (case h ! a of Array xs \<Rightarrow> Some (h[a := Array (xs @ [x])]) | Object fs \<Rightarrow> None)
      else None)"
| "push h v x = None"

text \<open>\<open>!v\<close> is false for an object, a non-empty string and a number other than 0.\<close>

fun truthy :: "val \<Rightarrow> bool" where
  "truthy VUndefined = False"
| "truthy VNull = False"
| "truthy (VNum n) = (n \<noteq> 0)"
| "truthy (VStr s) = (s \<noteq> '''')"
| "truthy (VRef a) = True"

subsection \<open>chunkArray on the store\<close>

text \<open>
  \<open>arr.length\<close> is read before every round. \<open>arr.slice\<close> makes a new array, whose
  reference is pushed on \<open>out\<close>. \<open>None\<close> is a run that does not return a value here:
  one that never ends, or one on a value that is not an array.
\<close>

partial_function (option) chunkArray_loop_st ::
  "store \<Rightarrow> val \<Rightarrow> nat \<Rightarrow> nat \<Rightarrow> val \<Rightarrow> store option" where
  "chunkArray_loop_st h arr size' i out =
     (case elems h arr of
        None \<Rightarrow> None
      | Some xs \<Rightarrow>
          if i < length xs
          then (case alloc (Array (slice xs i (i + size'))) h of
                  (h1, chunk) \<Rightarrow>
                    (case push h1 out chunk of
                       None \<Rightarrow> None
                     | Some h2 \<Rightarrow> chunkArray_loop_st h2 arr size' (i + size') out))
          else Some h)"

declare chunkArray_loop_st.simps [code]

definition chunkArray_st :: "store \<Rightarrow> val \<Rightarrow> nat \<Rightarrow> (store \<times> val) option" where
  "chunkArray_st h arr size' =
     (case alloc (Array []) h of
        (h1, out) \<Rightarrow>
          (case chunkArray_loop_st h1 arr size' 0 out of
             None \<Rightarrow> None
           | Some h2 \<Rightarrow> Some (h2, out)))"

subsection \<open>buildThreadForEntry on the store\<close>

text \<open>
  The function given to \<open>chunks.map\<close>: it reads \<open>chunks.length\<close> and makes a new object.
\<close>

definition chunkPost_st :: "store \<Rightarrow> val \<Rightarrow> val \<Rightarrow> nat \<Rightarrow> (store \<times> val) option" where
  "chunkPost_st h chunks imgs idx =
     (case elems h chunks of
        None \<Rightarrow> None
      | Some cs \<Rightarrow>
          Some (alloc (Object [(''images'', imgs), (''text'', VStr ''''),
                               (''index'', VNum (idx + 1)),
                               (''total'', VNum (length cs + 1))]) h))"

text \<open>
  \<open>chunks.map\<close>: a new array, and for the elements of \<open>chunks\<close> from the first to the last
  the result of the function, put at the end of the new array.
\<close>

fun map_loop_st :: "store \<Rightarrow> val \<Rightarrow> val list \<Rightarrow> nat \<Rightarrow> val \<Rightarrow> store option" where
  "map_loop_st h chunks [] idx posts = Some h"
| "map_loop_st h chunks (imgs # rest) idx posts =
     (case chunkPost_st h chunks imgs idx of
        None \<Rightarrow> None
      | Some (h1, p) \<Rightarrow>
          (case push h1 posts p of
             None \<Rightarrow> None
           | Some h2 \<Rightarrow> map_loop_st h2 chunks rest (idx + 1) posts))"

definition map_st :: "store \<Rightarrow> val \<Rightarrow> (store \<times> val) option" where
  "map_st h chunks =
     (case elems h chunks of
        None \<Rightarrow> None
      | Some cs \<Rightarrow>
          (case alloc (Array []) h of
             (h1, posts) \<Rightarrow>
               (case map_loop_st h1 chunks cs 0 posts of
                  None \<Rightarrow> None
                | Some h2 \<Rightarrow> Some (h2, posts))))"

definition buildThreadForEntry_st :: "store \<Rightarrow> val \<Rightarrow> (store \<times> val) option" where
  "buildThreadForEntry_st h entryData =
     (if \<not> truthy entryData then Some (alloc (Array []) h)
      else do {
        images \<leftarrow> get h entryData ''images'';
        (h1, chunks) \<leftarrow> chunkArray_st h images 4;
        (h2, posts) \<leftarrow> map_st h1 chunks;
        let (h3, none) = alloc (Array []) h2;
        trailingText \<leftarrow> get h3 entryData ''trailingText'';
        cs \<leftarrow> elems h3 chunks;
        let (h4, p) = alloc (Object [(''images'', none), (''text'', trailingText),
                                     (''index'', VNum (length cs + 1)),
                                     (''total'', VNum (length cs + 1))]) h3;
        h5 \<leftarrow> push h4 posts p;
        Some (h5, posts)
      })"

subsection \<open>Reading values back from the store\<close>

text \<open>
  The entry, and the array of posts, that a value of the store stands for, if it stands
  for one: this is what \<open>structurally identical\<close> compares.
\<close>

fun str_of :: "val \<Rightarrow> string option" where
  "str_of (VStr s) = Some s"
| "str_of v = None"

fun num_of :: "val \<Rightarrow> nat option" where
  "num_of (VNum n) = Some n"
| "num_of v = None"

definition read_strings :: "store \<Rightarrow> val \<Rightarrow> string list option" where
  "read_strings h v = do { xs \<leftarrow> elems h v; those (map str_of xs) }"

definition read_entry :: "store \<Rightarrow> val \<Rightarrow> entryData option option" where
  "read_entry h v =
     (if v = VNull then Some None
      else do {
        iv \<leftarrow> get h v ''images'';
        imgs \<leftarrow> read_strings h iv;
        tv \<leftarrow> get h v ''trailingText'';
        t \<leftarrow> str_of tv;
        Some (Some \<lparr>entryData.images = imgs, trailingText = t\<rparr>)
      })"

definition read_post :: "store \<Rightarrow> val \<Rightarrow> post option" where
  "read_post h v =
     do {
       iv \<leftarrow> get h v ''images'';
       imgs \<leftarrow> read_strings h iv;
       tv \<leftarrow> get h v ''text'';
       t \<leftarrow> str_of tv;
       nv \<leftarrow> get h v ''index'';
       n \<leftarrow> num_of nv;
       mv \<leftarrow> get h v ''total'';
       m \<leftarrow> num_of mv;
       Some \<lparr>images = imgs, text' = t, index = n, total' = m\<rparr>
     }"

definition read_posts :: "store \<Rightarrow> val \<Rightarrow> post list option" where
  "read_posts h v = do { ps \<leftarrow> elems h v; those (map (read_post h) ps) }"

subsection \<open>The store after a call\<close>

text \<open>
  What a call of \<open>buildThreadForEntry\<close> adds to a store \<open>h\<close> whose entry has the images
  \<open>xs\<close> and the trailing text \<open>tv\<close>, in the order of allocation: the array \<open>out\<close> of
  \<open>chunkArray\<close>, the chunks, the array \<open>posts\<close>, the objects made by \<open>map\<close>, the empty
  array and the object of the last post.
\<close>

definition post_obj :: "nat \<Rightarrow> nat \<Rightarrow> val \<times> nat \<Rightarrow> obj" where
  "post_obj n idx = (\<lambda>(c, k). Object [(''images'', c), (''text'', VStr ''''),
                               (''index'', VNum (idx + k + 1)), (''total'', VNum (n + 1))])"

definition chunk_refs :: "nat \<Rightarrow> val list \<Rightarrow> val list" where
  "chunk_refs L xs = map VRef [L + 1 ..< L + 1 + (length xs + 3) div 4]"

definition chunk_objs :: "val list \<Rightarrow> obj list" where
  "chunk_objs xs = map (\<lambda>k. Array (slice xs (k * 4) (k * 4 + 4))) [0..<(length xs + 3) div 4]"

definition post_refs :: "nat \<Rightarrow> val list \<Rightarrow> val list" where
  "post_refs L xs = map VRef [L + (length xs + 3) div 4 + 2 ..<
                              L + (length xs + 3) div 4 + 2 + (length xs + 3) div 4]"

definition post_objs :: "nat \<Rightarrow> val list \<Rightarrow> obj list" where
  "post_objs L xs = map (post_obj ((length xs + 3) div 4) 0)
     (zip (chunk_refs L xs) [0..<(length xs + 3) div 4])"

definition trailing_obj :: "nat \<Rightarrow> val list \<Rightarrow> val \<Rightarrow> obj" where
  "trailing_obj L xs tv =
     Object [(''images'', VRef (L + 2 * ((length xs + 3) div 4) + 2)), (''text'', tv),
             (''index'', VNum ((length xs + 3) div 4 + 1)),
             (''total'', VNum ((length xs + 3) div 4 + 1))]"

definition built :: "store \<Rightarrow> val list \<Rightarrow> val \<Rightarrow> store" where
  "built h xs tv =
     h @ Array (chunk_refs (length h) xs) # chunk_objs xs
       @ Array (post_refs (length h) xs @ [VRef (length h + 2 * ((length xs + 3) div 4) + 3)])
       # post_objs (length h) xs
       @ [Array [], trailing_obj (length h) xs tv]"

subsection \<open>Stores to run it on\<close>

text \<open>A store with one entry of five images, at address 1.\<close>

definition store_5 :: store where
  "store_5 = [Array (map VStr [''a'', ''b'', ''c'', ''d'', ''e'']),
              Object [(''images'', VRef 0), (''trailingText'', VStr ''T'')]]"

text \<open>The same entry in another store, at other addresses, with one more property.\<close>

definition store_5' :: store where
  "store_5' = [Object [(''meta'', VNull), (''trailingText'', VStr ''T''), (''images'', VRef 2)],
               Array [],
               Array (map VStr [''a'', ''b'', ''c'', ''d'', ''e''])]"

definition entry_5 :: entryData where
  "entry_5 = \<lparr>entryData.images = [''a'', ''b'', ''c'', ''d'', ''e''], trailingText = ''T''\<rparr>"

definition posts_5 :: "post list" where
  "posts_5 = [\<lparr>images = [''a'', ''b'', ''c'', ''d''], text' = '''', index = 1, total' = 3\<rparr>,
              \<lparr>images = [''e''], text' = '''', index = 2, total' = 3\<rparr>,
              \<lparr>images = [], text' = ''T'', index = 3, total' = 3\<rparr>]"

section \<open>Image resolution (dashboard/src/ImageItem.tsx)\<close>

text \<open>
  \<^verbatim>\<open>
  const [image, setImage] = useState<string>("");
  const [loading, setLoading] = useState(true);

  useEffect(() => {
    let isMounted = true;
    async function loadImages() {
      try {
        const res = await fetch("https://script.google.com/.../exec?" + src);
        const json = await res.json();
        const base64Image = `data:${json.mimeType};base64,${json.base64}`;
        if (isMounted) {
          setImage(base64Image);
          setLoading(false);
        }
      } catch (err) {
        console.error("Error loading images:", err);
      }
    }
    loadImages();
    return () => { isMounted = false; };
  }, [src]);

  if (loading) return <p>Loading images...</p>;
  \<close>
  Every run of the effect has its own variable \<open>isMounted\<close>, captured by the closure of
  its own \<open>loadImages\<close>; the component keeps them in the list \<open>requests\<close>, one entry per
  run of the effect, and a request is named by its position in that list.
\<close>

subsection \<open>What the network delivers\<close>

text \<open>
  A property of the parsed body as the template literal sees it: a string, or \<open>undefined\<close>
  when the body has no such property. Property values of other JSON types are not
  modelled.
\<close>

datatype js_prop = Undefined | Str string

fun toString :: "js_prop \<Rightarrow> string" where
  "toString Undefined = ''undefined''"
| "toString (Str s) = s"

text \<open>
  The outcome of the two awaits, \<open>fetch\<close> and \<open>res.json()\<close>: either of them throws, or
  the body is parsed. The body \<open>null\<close> is parsed, but reading its property throws a
  \<open>TypeError\<close> inside the same \<open>try\<close>. The HTTP status is never looked at.
\<close>

datatype fetch_outcome =
    FetchThrows string
  | JsonThrows string
  | JsonNull
  | Json js_prop js_prop


subsection \<open>The component\<close>

text \<open>
  A request is one run of the effect: the address it fetches, its own \<open>isMounted\<close>, and
  whether its response has arrived. The state of the component is \<open>image\<close> (written
  \<open>image'\<close>, HOL has a constant of that name) and \<open>loading\<close>; they decide what is
  rendered. The same record holds what else a step can change: the requests, the lines
  written on the console of the browser with \<open>console.error\<close>, which are not state of the
  component, and whether the component is mounted.
\<close>

record request =
  fetchUrl :: string
  isMounted :: bool
  settled :: bool

record ImageItem =
  image' :: string
  loading :: bool
  requests :: "request list"
  console :: "string list"
  alive :: bool

text \<open>The state of a component that has not run its effect yet: the two \<open>useState\<close>.\<close>

definition init :: ImageItem where
  "init = \<lparr>image' = '''', loading = True, requests = [], console = [], alive = True\<rparr>"

definition proxy :: string where
  "proxy = ''https://script.google.com/macros/s/AKfycbzqiLrZJpkNkyFrClr767aMcaaBE_G0PJpYjDYeNhTQftRLb_OG6Yt1fTOs3MNm7ObK/exec?''"

text \<open>
  The body of the \<open>try\<close> once both awaits are over, for the request \<open>rid\<close>: \<open>Inl\<close> is a
  throw. The flag that is read is the one of this request, at the time the response
  arrives.
\<close>

definition loadImages_try :: "nat \<Rightarrow> fetch_outcome \<Rightarrow> ImageItem \<Rightarrow> string + ImageItem" where
  "loadImages_try rid r s =
     (case r of
        FetchThrows err \<Rightarrow> Inl err
      | JsonThrows err \<Rightarrow> Inl err
      | JsonNull \<Rightarrow> Inl ''TypeError: Cannot read properties of null''
      | Json mimeType base64 \<Rightarrow>
          (let base64Image = ''data:'' @ toString mimeType @ '';base64,'' @ toString base64
           in if isMounted (requests s ! rid)
              then Inr (s\<lparr>image' := base64Image, loading := False\<rparr>)
              else Inr s))"

text \<open>
  \<open>loadImages\<close> with its \<open>catch\<close>: the promise it returns is rejected (\<open>Inl\<close>) or
  fulfilled with the state of the component (\<open>Inr\<close>).
\<close>

definition loadImages :: "nat \<Rightarrow> fetch_outcome \<Rightarrow> ImageItem \<Rightarrow> string + ImageItem" where
  "loadImages rid r s =
     (case loadImages_try rid r s of
        Inl err \<Rightarrow> Inr (s\<lparr>console := console s @ [''Error loading images: '' @ err]\<rparr>)
      | Inr s' \<Rightarrow> Inr s')"

text \<open>
  The function the effect returns, \<^verbatim>\<open>() => { isMounted = false; }\<close>, for the last run of
  the effect.
\<close>

definition cleanup :: "ImageItem \<Rightarrow> ImageItem" where
  "cleanup s =
     (if requests s = [] then s
      else s\<lparr>requests := (requests s)[length (requests s) - 1 :=
                 (last (requests s))\<lparr>isMounted := False\<rparr>]\<rparr>)"

text \<open>The effect: a new flag, set, and the call of \<open>loadImages\<close> up to its first await.\<close>

definition effect :: "string \<Rightarrow> ImageItem \<Rightarrow> ImageItem" where
  "effect src s =
     s\<lparr>requests := requests s @ [\<lparr>fetchUrl = proxy @ src, isMounted = True, settled = False\<rparr>]\<rparr>"

text \<open>
  What happens to a component. React runs the effect after the first render and after a
  render with another \<open>src\<close>, the previous cleanup first; it runs the last cleanup when the
  component is unmounted, and nothing of an unmounted component afterwards. A response
  arrives for a request that was sent and has not settled yet, and a request settles once;
  a rejected promise of \<open>loadImages\<close> would be left unhandled by the effect.
\<close>

datatype event = RunEffect string | Unmount | Settle nat fetch_outcome

fun step :: "event \<Rightarrow> ImageItem \<Rightarrow> ImageItem" where
  "step (RunEffect src) s = (if alive s then effect src (cleanup s) else s)"
| "step Unmount s = (if alive s then (cleanup s)\<lparr>alive := False\<rparr> else s)"
| "step (Settle rid r) s =
     (if rid < length (requests s) \<and> \<not> settled (requests s ! rid)
      then (case loadImages rid r s of
              Inl err \<Rightarrow> s
            | Inr s' \<Rightarrow> s')\<lparr>requests := (requests s)[rid := (requests s ! rid)\<lparr>settled := True\<rparr>]\<rparr>
      else s)"

fun run :: "event list \<Rightarrow> ImageItem \<Rightarrow> ImageItem" where
  "run [] s = s"
| "run (e # es) s = run es (step e s)"

text \<open>What the component renders: the loading paragraph, or the image.\<close>

datatype element = P string | Img string

definition render :: "ImageItem \<Rightarrow> element" where
  "render s = (if loading s then P ''Loading images...'' else Img (image' s))"



subsection \<open>Invariants\<close>

text \<open>
  At most the last request of a live component has its flag set, and no request of an
  unmounted component has.
\<close>

definition flags_ok :: "ImageItem \<Rightarrow> bool" where
  "flags_ok s = (\<forall>i < length (requests s).
      isMounted (requests s ! i) \<longrightarrow> alive s \<and> Suc i = length (requests s))"

definition torn_down :: "ImageItem \<Rightarrow> bool" where
  "torn_down s = (\<not> alive s \<and> (\<forall>rq \<in> set (requests s). \<not> isMounted rq))"



section \<open>Posting to X (postToX)\<close>

text \<open>
  \<^verbatim>\<open>
  function postToX(entry: { images: any; trailingText: any }) {
    const scriptProperties = PropertiesService.getScriptProperties();
    const bearerToken = scriptProperties.getProperty('bearerToken');
    if (!bearerToken) {
      throw new Error('bearerToken is not set in script properties.');
    }
    const url = 'https://api.twitter.com/2/tweets';
    const payload = { text: 'Test' };
    const params = {
      method: 'post',
      headers: { Authorization: 'Bearer ' + bearerToken },
      contentType: 'application/json',
      payload: JSON.stringify(payload),
      muteHttpExceptions: true,
    };
    const response = UrlFetchApp.fetch(url, params);
    const responseCode = response.getResponseCode();
    const responseBody = response.getContentText();
    if (responseCode === 200) {
      const jsonResponse = JSON.parse(responseBody);
      return jsonResponse;
    } else {
      Logger.log('Error posting to X: ' + responseBody);
      throw new Error('Failed to post entry to X: ' + responseBody);
    }
  }
  \<close>
\<close>

subsection \<open>The platform\<close>

record URLFetchRequestOptions =
  httpMethod :: string
  headers :: "(string \<times> string) list"
  contentType :: string
  payload :: string
  muteHttpExceptions :: bool

record HTTPResponse =
  getResponseCode :: int
  getContentText :: string

datatype error = Error string

text \<open>
  The services of Apps Script and the two functions of \<open>JSON\<close> that \<open>postToX\<close> calls are
  not part of the sources; they are parameters. \<open>getProperty\<close> gives \<open>null\<close> (\<open>None\<close>)
  for a key that is not set. \<open>fetch\<close> and \<open>JSON_parse\<close> may throw (\<open>Inl\<close>); with
  \<open>muteHttpExceptions\<close> a response with an error status is returned, not thrown.
  \<open>JSON_stringify\<close> is applied to an object whose properties are strings. The option
  \<open>method\<close> of a request is written \<open>httpMethod\<close>.
\<close>

record 'j platform =
  getProperty :: "string \<Rightarrow> string option"
  fetch :: "string \<Rightarrow> URLFetchRequestOptions \<Rightarrow> error + HTTPResponse"
  JSON_parse :: "string \<Rightarrow> error + 'j"
  JSON_stringify :: "(string \<times> string) list \<Rightarrow> string"

text \<open>What a call does besides returning: the requests it sends and the lines it logs.\<close>

record effects =
  fetched :: "(string \<times> URLFetchRequestOptions) list"
  logged :: "string list"

text \<open>The request that \<open>postToX\<close> sends for a token.\<close>

definition url :: string where
  "url = ''https://api.twitter.com/2/tweets''"

definition params :: "'j platform \<Rightarrow> string \<Rightarrow> URLFetchRequestOptions" where
  "params env bearerToken =
     (let payload = [(''text'', ''Test'')]
      in \<lparr>httpMethod = ''post'',
          headers = [(''Authorization'', ''Bearer '' @ bearerToken)],
          contentType = ''application/json'',
          payload = JSON_stringify env payload,
          muteHttpExceptions = True\<rparr>)"

subsection \<open>postToX\<close>

text \<open>\<open>!bearerToken\<close> holds for \<open>null\<close> and for the empty string.\<close>

definition postToX :: "'j platform \<Rightarrow> 'e \<Rightarrow> (error + 'j) \<times> effects" where
  "postToX env entry =
     (let not_set = (Inl (Error ''bearerToken is not set in script properties.''),
                     \<lparr>fetched = [], logged = []\<rparr>)
      in case getProperty env ''bearerToken'' of
           None \<Rightarrow> not_set
         | Some bearerToken \<Rightarrow>
             if bearerToken = '''' then not_set
             else
               (case fetch env url (params env bearerToken) of
                  Inl err \<Rightarrow>
                    (Inl err, \<lparr>fetched = [(url, params env bearerToken)], logged = []\<rparr>)
                | Inr response \<Rightarrow>
                    let responseCode = getResponseCode response;
                        responseBody = getContentText response
                    in if responseCode = 200
                       then (JSON_parse env responseBody,
                             \<lparr>fetched = [(url, params env bearerToken)], logged = []\<rparr>)
                       else (Inl (Error (''Failed to post entry to X: '' @ responseBody)),
                             \<lparr>fetched = [(url, params env bearerToken)],
                              logged = [''Error posting to X: '' @ responseBody]\<rparr>)))"

subsection \<open>Platforms to run it on\<close>

text \<open>
  Two platforms for the examples below: one without the token, and one with the token
  \<open>tok\<close> whose \<open>fetch\<close> answers with a given status and body. Their \<open>JSON_parse\<close>
  rejects the empty text, as \<open>JSON.parse\<close> does, and gives any other text back as it
  is.
\<close>

definition env_missing :: "string platform" where
  "env_missing =
     \<lparr>getProperty = (\<lambda>k. None),
      fetch = (\<lambda>u p. Inr \<lparr>getResponseCode = 200, getContentText = ''{}''\<rparr>),
      JSON_parse = (\<lambda>s. if s = '''' then Inl (Error ''SyntaxError: Unexpected end of JSON input'') else Inr s),
      JSON_stringify = (\<lambda>kvs. concat (map (\<lambda>(k, v). k @ '':'' @ v) kvs))\<rparr>"

definition env_status :: "int \<Rightarrow> string \<Rightarrow> string platform" where
  "env_status code body =
     \<lparr>getProperty = (\<lambda>k. if k = ''bearerToken'' then Some ''tok'' else None),
      fetch = (\<lambda>u p. Inr \<lparr>getResponseCode = code, getContentText = body\<rparr>),
      JSON_parse = (\<lambda>s. if s = '''' then Inl (Error ''SyntaxError: Unexpected end of JSON input'') else Inr s),
      JSON_stringify = (\<lambda>kvs. concat (map (\<lambda>(k, v). k @ '':'' @ v) kvs))\<rparr>"

text \<open>An entry to post.\<close>

definition entry_T :: entryData where
  "entry_T = \<lparr>entryData.images = [''a''], trailingText = ''T''\<rparr>"

section \<open>Properties of the thread composition\<close>

subsection \<open>chunkArray in closed form\<close>

lemma chunkArray_loop_closed:
  assumes "0 < s"
  shows "chunkArray_loop arr s i out =
     Some (out @ map (\<lambda>k. slice arr (i + k * s) (i + k * s + s)) [0..<(length arr - i + s - 1) div s])"
proof (induction "length arr - i" arbitrary: i out rule: less_induct)
  case less
  show ?case
  proof (cases "i < length arr")
    case False
    then have "(length arr - i + s - 1) div s = 0" using assms by simp
    with False show ?thesis by (subst chunkArray_loop.simps) simp
  next
    case True
    let ?n = "(length arr - (i + s) + s - 1) div s"
    have n: "(length arr - i + s - 1) div s = Suc ?n"
    proof (cases "i + s \<le> length arr")
      case True
      then have e: "length arr - i + s - 1 = (length arr - (i + s) + s - 1) + s" using assms by simp
      have g: "(m + s) div s = Suc (m div s)" for m using assms by simp
      show ?thesis by (simp only: e g)
    next
      case False
      with True assms have "s \<le> length arr - i + s - 1" "length arr - i + s - 1 < 2 * s" by simp_all
      then have "(length arr - i + s - 1) div s = 1"
        by (metis assms div_nat_eqI mult.commute mult_2 nat_mult_1_right plus_1_eq_Suc mult_Suc_right One_nat_def)
      moreover from False have "?n = 0" using assms by simp
      ultimately show ?thesis by simp
    qed
    have lt: "length arr - (i + s) < length arr - i" using True assms by simp
    have "chunkArray_loop arr s i out = chunkArray_loop arr s (i + s) (out @ [slice arr i (i + s)])"
      using True by (subst chunkArray_loop.simps) simp
    also have "\<dots> = Some ((out @ [slice arr i (i + s)]) @
        map (\<lambda>k. slice arr (i + s + k * s) (i + s + k * s + s)) [0..<?n])"
      by (rule less[OF lt])
    also have "\<dots> = Some (out @ map (\<lambda>k. slice arr (i + k * s) (i + k * s + s)) [0..<Suc ?n])"
      by (simp add: map_upt_Suc del: upt_Suc add: add.commute add.left_commute add.assoc)
    finally show ?thesis using n by simp
  qed
qed

lemma chunkArray_closed:
  assumes "0 < s"
  shows "chunkArray arr s =
     Some (map (\<lambda>k. take s (drop (k * s) arr)) [0..<(length arr + s - 1) div s])"
  using chunkArray_loop_closed [OF assms, of arr 0 "[]"]
  by (simp add: chunkArray_def slice_def)

lemma concat_chunks_take:
  "concat (map (\<lambda>k. take s (drop (k * s) xs)) [0..<m]) = take (m * s) xs"
proof (induction m)
  case 0
  show ?case by simp
next
  case (Suc m)
  have "take (m * s + s) xs = take (m * s) xs @ take s (drop (m * s) xs)"
    by (rule take_add)
  with Suc show ?case by (simp add: add.commute)
qed

lemma chunk_count_covers:
  assumes "0 < s"
  shows "length xs \<le> ((length xs + s - 1) div s) * s"
proof -
  have "length xs + s - 1 < ((length xs + s - 1) div s) * s + s"
    using assms dividend_less_div_times [of s "length xs + s - 1"] by simp
  then show ?thesis by simp
qed

lemma chunk_nonempty:
  assumes "0 < s" and "k < (length xs + s - 1) div s"
  shows "take s (drop (k * s) xs) \<noteq> []"
proof -
  from assms(2) have "Suc k \<le> (length xs + s - 1) div s" by simp
  then have "Suc k * s \<le> ((length xs + s - 1) div s) * s" by (rule mult_le_mono1)
  also have "\<dots> \<le> length xs + s - 1" by simp
  finally have "k * s < length xs" using assms(1) by simp
  then show ?thesis using assms(1) by simp
qed

lemma ceil_div_4: "(n + 3) div 4 = nat \<lceil>real n / 4\<rceil>"
proof -
  have "\<lceil>real n / 4\<rceil> = - \<lfloor>- (real_of_int (int n)) / real_of_int 4\<rfloor>"
    by (simp add: ceiling_def)
  also have "\<dots> = - ((- int n) div 4)"
    by (simp only: floor_divide_of_int_eq of_int_minus [symmetric])
  also have "\<dots> = (int n + 3) div 4" by presburger
  finally show ?thesis by (simp add: nat_div_distrib)
qed

lemma buildThreadForEntry_closed:
  "buildThreadForEntry (Some e) =
     Some (map (\<lambda>k. \<lparr>images = take 4 (drop (k * 4) (entryData.images e)), text' = '''',
                       index = k + 1, total' = chunkCount e + 1\<rparr>) [0..<chunkCount e]
           @ [\<lparr>images = [], text' = trailingText e,
                index = chunkCount e + 1, total' = chunkCount e + 1\<rparr>])"
proof -
  have z: "zip (map g ks) ks = map (\<lambda>k. (g k, k)) ks" for g :: "nat \<Rightarrow> string list" and ks
    by (induction ks) simp_all
  show ?thesis
    by (simp add: buildThreadForEntry_def chunkArray_closed [of 4] chunkCount_def z chunkPost_def
        comp_def add.commute)
qed

lemma chunkCount_ceil: "chunkCount e = nat \<lceil>real (length (entryData.images e)) / 4\<rceil>"
  by (simp add: chunkCount_def ceil_div_4)

lemma chunk_4_nonempty:
  "k < chunkCount e \<Longrightarrow> take 4 (drop (k * 4) (entryData.images e)) \<noteq> []"
  using chunk_nonempty [of 4 k "entryData.images e"] by (simp add: chunkCount_def)

lemma concat_chunks_4:
  "concat (map (\<lambda>k. take 4 (drop (k * 4) (entryData.images e))) [0..<chunkCount e])
     = entryData.images e"
  using chunk_count_covers [of 4 "entryData.images e"]
  by (simp add: concat_chunks_take chunkCount_def)

text \<open>
  Claim C1. For every entry that is not null, \<open>buildThreadForEntry\<close> returns, and its
  result has \<open>ceil (n / 4) + 1\<close> units for \<open>n\<close> images. All units but the last carry
  the images: unit \<open>k\<close> (from 0) holds the images at positions \<open>4 k\<close> up to \<open>4 k + 3\<close>,
  at least one and at most four of them, so that the image lists of these units,
  concatenated in order, are the images of the entry. They are exactly the units with a
  non-empty image list, and there is none when the entry has no image.
\<close>

theorem buildThreadForEntry_partitions_images:
  "\<exists>posts. buildThreadForEntry (Some e) = Some posts
     \<and> length posts = nat \<lceil>real (length (entryData.images e)) / 4\<rceil> + 1
     \<and> (\<forall>k < length posts - 1.
            images (posts ! k) = take 4 (drop (4 * k) (entryData.images e))
            \<and> 0 < length (images (posts ! k)) \<and> length (images (posts ! k)) \<le> 4)
     \<and> concat (map images (butlast posts)) = entryData.images e
     \<and> filter (\<lambda>p. images p \<noteq> []) posts = butlast posts
     \<and> (butlast posts = []) = (entryData.images e = [])"
proof -
  define f where "f = (\<lambda>k. \<lparr>images = take 4 (drop (k * 4) (entryData.images e)), text' = '''',
                       index = k + 1, total' = chunkCount e + 1\<rparr>)"
  define t where "t = \<lparr>images = [], text' = trailingText e,
                index = chunkCount e + 1, total' = chunkCount e + 1\<rparr>"
  define ps where "ps = map f [0..<chunkCount e]"
  have run: "buildThreadForEntry (Some e) = Some (ps @ [t])"
    unfolding ps_def f_def t_def by (rule buildThreadForEntry_closed)
  have len: "length (ps @ [t]) = nat \<lceil>real (length (entryData.images e)) / 4\<rceil> + 1"
    by (simp add: ps_def chunkCount_ceil)
  have nth: "images ((ps @ [t]) ! k) = take 4 (drop (4 * k) (entryData.images e))
       \<and> 0 < length (images ((ps @ [t]) ! k)) \<and> length (images ((ps @ [t]) ! k)) \<le> 4"
    if "k < length (ps @ [t]) - 1" for k
  proof -
    from that have k: "k < chunkCount e" by (simp add: ps_def)
    then have "(ps @ [t]) ! k = f k" by (simp add: ps_def nth_append)
    moreover have "images (f k) = take 4 (drop (4 * k) (entryData.images e))"
      by (simp add: f_def mult.commute)
    moreover have "images (f k) \<noteq> []" using chunk_4_nonempty [OF k] by (simp add: f_def)
    ultimately show ?thesis by simp
  qed
  have imgs: "map images ps = map (\<lambda>k. take 4 (drop (k * 4) (entryData.images e))) [0..<chunkCount e]"
    by (simp add: ps_def f_def comp_def)
  have cat: "concat (map images (butlast (ps @ [t]))) = entryData.images e"
    by (simp add: imgs concat_chunks_4 del: map_map)
  have "filter (\<lambda>p. images p \<noteq> []) ps = ps"
    unfolding filter_id_conv ps_def using chunk_4_nonempty by (auto simp: f_def)
  then have flt: "filter (\<lambda>p. images p \<noteq> []) (ps @ [t]) = butlast (ps @ [t])"
    by (simp add: t_def)
  have emp: "(butlast (ps @ [t]) = []) = (entryData.images e = [])"
    by (simp add: ps_def chunkCount_def div_eq_0_iff)
  from run len nth cat flt emp show ?thesis by blast
qed

text \<open>Five images: two image units, of four images and of one.\<close>

theorem buildThreadForEntry_partitions_images_witness:
  "\<exists>posts. buildThreadForEntry
       (Some \<lparr>entryData.images = [''a'', ''b'', ''c'', ''d'', ''e''], trailingText = ''T''\<rparr>) = Some posts
     \<and> length posts = 3
     \<and> (0::nat) < length posts - 1
     \<and> images (posts ! 0) = [''a'', ''b'', ''c'', ''d'']
     \<and> images (posts ! 1) = [''e'']
     \<and> concat (map images (butlast posts)) = [''a'', ''b'', ''c'', ''d'', ''e'']"
proof -
  let ?e = "\<lparr>entryData.images = [''a'', ''b'', ''c'', ''d'', ''e''], trailingText = ''T''\<rparr>"
  from buildThreadForEntry_partitions_images [of ?e] obtain posts where
    p: "buildThreadForEntry (Some ?e) = Some posts"
      "length posts = nat \<lceil>real (length (entryData.images ?e)) / 4\<rceil> + 1"
      "\<forall>k < length posts - 1.
            images (posts ! k) = take 4 (drop (4 * k) (entryData.images ?e))
            \<and> 0 < length (images (posts ! k)) \<and> length (images (posts ! k)) \<le> 4"
      "concat (map images (butlast posts)) = entryData.images ?e"
    by blast
  have c: "nat \<lceil>real (length (entryData.images ?e)) / 4\<rceil> = 2"
    by (simp add: ceil_div_4 [symmetric])
  from p(2) c have l: "length posts = 3" by simp
  from p(3) l have "images (posts ! 0) = [''a'', ''b'', ''c'', ''d'']" "images (posts ! 1) = [''e'']"
    by simp_all
  with p(1,4) l show ?thesis by simp
qed

text \<open>
  Claim C2. For every entry that is not null, the result has \<open>ceil (n / 4) + 1\<close> units
  and the last one has no image, the entry's trailing text (whatever it is, the empty
  string included) and \<open>index = total = ceil (n / 4) + 1\<close>. It is the only unit without
  images, and every unit with images has the empty text.
\<close>

theorem buildThreadForEntry_trailing_unit:
  "\<exists>posts. buildThreadForEntry (Some e) = Some posts
     \<and> length posts = nat \<lceil>real (length (entryData.images e)) / 4\<rceil> + 1
     \<and> last posts = \<lparr>images = [], text' = trailingText e,
                      index = nat \<lceil>real (length (entryData.images e)) / 4\<rceil> + 1,
                      total' = nat \<lceil>real (length (entryData.images e)) / 4\<rceil> + 1\<rparr>
     \<and> filter (\<lambda>p. images p = []) posts = [last posts]
     \<and> (\<forall>p \<in> set posts. images p \<noteq> [] \<longrightarrow> text' p = '''')"
proof -
  define f where "f = (\<lambda>k. \<lparr>images = take 4 (drop (k * 4) (entryData.images e)), text' = '''',
                       index = k + 1, total' = chunkCount e + 1\<rparr>)"
  define t where "t = \<lparr>images = [], text' = trailingText e,
                index = chunkCount e + 1, total' = chunkCount e + 1\<rparr>"
  define ps where "ps = map f [0..<chunkCount e]"
  have run: "buildThreadForEntry (Some e) = Some (ps @ [t])"
    unfolding ps_def f_def t_def by (rule buildThreadForEntry_closed)
  have len: "length (ps @ [t]) = nat \<lceil>real (length (entryData.images e)) / 4\<rceil> + 1"
    by (simp add: ps_def chunkCount_ceil)
  have lst: "last (ps @ [t]) = \<lparr>images = [], text' = trailingText e,
                      index = nat \<lceil>real (length (entryData.images e)) / 4\<rceil> + 1,
                      total' = nat \<lceil>real (length (entryData.images e)) / 4\<rceil> + 1\<rparr>"
    by (simp add: t_def chunkCount_ceil)
  have "filter (\<lambda>p. images p = []) ps = []"
    unfolding filter_empty_conv ps_def using chunk_4_nonempty by (auto simp: f_def)
  then have one: "filter (\<lambda>p. images p = []) (ps @ [t]) = [last (ps @ [t])]"
    by (simp add: t_def)
  have tx: "\<forall>p \<in> set (ps @ [t]). images p \<noteq> [] \<longrightarrow> text' p = ''''"
    by (auto simp: ps_def f_def t_def)
  from run len lst one tx show ?thesis by blast
qed

text \<open>Five images and an empty trailing text: the trailing unit is still there.\<close>

theorem buildThreadForEntry_trailing_unit_witness:
  "\<exists>posts. buildThreadForEntry
       (Some \<lparr>entryData.images = [''a'', ''b'', ''c'', ''d'', ''e''], trailingText = ''''\<rparr>) = Some posts
     \<and> last posts = \<lparr>images = [], text' = '''', index = 3, total' = 3\<rparr>
     \<and> posts ! 1 \<in> set posts \<and> images (posts ! 1) \<noteq> [] \<and> text' (posts ! 1) = ''''"
proof -
  let ?e = "\<lparr>entryData.images = [''a'', ''b'', ''c'', ''d'', ''e''], trailingText = ''''\<rparr>"
  from buildThreadForEntry_trailing_unit [of ?e] obtain posts where
    p: "buildThreadForEntry (Some ?e) = Some posts"
      "last posts = \<lparr>images = [], text' = trailingText ?e,
                      index = nat \<lceil>real (length (entryData.images ?e)) / 4\<rceil> + 1,
                      total' = nat \<lceil>real (length (entryData.images ?e)) / 4\<rceil> + 1\<rparr>"
      "\<forall>p \<in> set posts. images p \<noteq> [] \<longrightarrow> text' p = ''''"
    by blast
  have c: "nat \<lceil>real (length (entryData.images ?e)) / 4\<rceil> = 2"
    by (simp add: ceil_div_4 [symmetric])
  have v: "buildThreadForEntry (Some ?e) =
      Some [\<lparr>images = [''a'', ''b'', ''c'', ''d''], text' = '''', index = 1, total' = 3\<rparr>,
            \<lparr>images = [''e''], text' = '''', index = 2, total' = 3\<rparr>,
            \<lparr>images = [], text' = '''', index = 3, total' = 3\<rparr>]"
    by code_simp
  from p(1) v have m: "posts ! 1 \<in> set posts" "images (posts ! 1) \<noteq> []" by auto
  with p(3) have "text' (posts ! 1) = ''''" by blast
  with p(1,2) c m show ?thesis by simp
qed

text \<open>
  Claim C3. For every entry that is not null, every unit's \<open>total\<close> is the length of the
  result, which is \<open>ceil (n / 4) + 1\<close>, and the \<open>index\<close> fields in order are
  \<open>1, 2, \<dots>, total\<close>.
\<close>

theorem buildThreadForEntry_index_total:
  "\<exists>posts. buildThreadForEntry (Some e) = Some posts
     \<and> length posts = nat \<lceil>real (length (entryData.images e)) / 4\<rceil> + 1
     \<and> (\<forall>p \<in> set posts. total' p = length posts)
     \<and> map index posts = [1..<length posts + 1]"
proof -
  define f where "f = (\<lambda>k. \<lparr>images = take 4 (drop (k * 4) (entryData.images e)), text' = '''',
                       index = k + 1, total' = chunkCount e + 1\<rparr>)"
  define t where "t = \<lparr>images = [], text' = trailingText e,
                index = chunkCount e + 1, total' = chunkCount e + 1\<rparr>"
  define ps where "ps = map f [0..<chunkCount e]"
  have run: "buildThreadForEntry (Some e) = Some (ps @ [t])"
    unfolding ps_def f_def t_def by (rule buildThreadForEntry_closed)
  have len: "length (ps @ [t]) = nat \<lceil>real (length (entryData.images e)) / 4\<rceil> + 1"
    by (simp add: ps_def chunkCount_ceil)
  have tot: "\<forall>p \<in> set (ps @ [t]). total' p = length (ps @ [t])"
    by (auto simp: ps_def f_def t_def)
  have "map index ps = map Suc [0..<chunkCount e]"
    by (simp add: ps_def f_def comp_def)
  also have "\<dots> = [1..<chunkCount e + 1]"
    by (simp add: map_Suc_upt del: upt_Suc)
  finally have "map index (ps @ [t]) = [1..<chunkCount e + 1] @ [chunkCount e + 1]"
    by (simp add: t_def)
  then have idx: "map index (ps @ [t]) = [1..<length (ps @ [t]) + 1]"
    by (simp add: ps_def)
  from run len tot idx show ?thesis by blast
qed

text \<open>Eight images: three units, numbered 1, 2, 3 of 3.\<close>

theorem buildThreadForEntry_index_total_witness:
  "\<exists>posts. buildThreadForEntry
       (Some \<lparr>entryData.images = replicate 8 ''img'', trailingText = ''''\<rparr>) = Some posts
     \<and> length posts = 3
     \<and> posts ! 0 \<in> set posts \<and> total' (posts ! 0) = 3
     \<and> map index posts = [1, 2, 3]"
proof -
  let ?e = "\<lparr>entryData.images = replicate 8 ''img'', trailingText = ''''\<rparr>"
  from buildThreadForEntry_index_total [of ?e] obtain posts where
    p: "buildThreadForEntry (Some ?e) = Some posts"
      "length posts = nat \<lceil>real (length (entryData.images ?e)) / 4\<rceil> + 1"
      "\<forall>p \<in> set posts. total' p = length posts"
      "map index posts = [1..<length posts + 1]"
    by blast
  have c: "nat \<lceil>real (length (entryData.images ?e)) / 4\<rceil> = 2"
    by (simp add: ceil_div_4 [symmetric])
  from p(2) c have l: "length posts = 3" by simp
  then have m: "posts ! 0 \<in> set posts" by simp
  with p(3) l have t: "total' (posts ! 0) = 3" by simp
  have u: "[1..<3 + 1] = [1, 2, 3::nat]" by code_simp
  from p(1,4) l m t u show ?thesis by simp
qed

text \<open>
  Claim C4. A null entry gives the empty array, and an entry with no image and the empty
  trailing text gives the single unit \<open>{images: [], text: "", index: 1, total: 1}\<close>.
\<close>

theorem buildThreadForEntry_boundaries:
  "buildThreadForEntry None = Some []
   \<and> buildThreadForEntry (Some \<lparr>entryData.images = [], trailingText = ''''\<rparr>)
       = Some [\<lparr>images = [], text' = '''', index = 1, total' = 1\<rparr>]"
  by (simp add: buildThreadForEntry_def chunkArray_def chunkArray_loop.simps)

section \<open>Properties of the thread composition on the store\<close>

lemma elems_append: "elems g v = Some xs \<Longrightarrow> elems (g @ m) v = Some xs"
  by (cases v) (auto simp: nth_append split: if_splits)

lemma get_append: "get g v k = Some x \<Longrightarrow> get (g @ m) v k = Some x"
  by (cases v) (auto simp: nth_append split: if_splits)

lemma push_middle:
  "push (g @ Array os # m) (VRef (length g)) x = Some (g @ Array (os @ [x]) # m)"
  by simp

lemma chunkArray_loop_st_closed:
  assumes "0 < s" and "elems g arr = Some xs"
  shows "chunkArray_loop_st (g @ Array os # m) arr s i (VRef (length g)) =
     Some (g @ Array (os @ map VRef [length g + 1 + length m ..<
                                     length g + 1 + length m + (length xs - i + s - 1) div s])
             # (m @ map (\<lambda>k. Array (slice xs (i + k * s) (i + k * s + s)))
                      [0..<(length xs - i + s - 1) div s]))"
proof (induction "length xs - i" arbitrary: i os m rule: less_induct)
  case less
  have el: "elems (g @ Array os # m) arr = Some xs" for os m
    using assms(2) by (rule elems_append)
  show ?case
  proof (cases "i < length xs")
    case False
    then have "(length xs - i + s - 1) div s = 0" using assms(1) by simp
    with False el show ?thesis by (subst chunkArray_loop_st.simps) simp
  next
    case True
    let ?n = "(length xs - (i + s) + s - 1) div s"
    let ?L = "length g + 1 + length m"
    have n: "(length xs - i + s - 1) div s = Suc ?n"
    proof (cases "i + s \<le> length xs")
      case True
      then have e: "length xs - i + s - 1 = (length xs - (i + s) + s - 1) + s"
        using assms(1) by simp
      have g: "(m + s) div s = Suc (m div s)" for m using assms(1) by simp
      show ?thesis by (simp only: e g)
    next
      case False
      with True assms(1) have "s \<le> length xs - i + s - 1" "length xs - i + s - 1 < 2 * s"
        by simp_all
      then have "(length xs - i + s - 1) div s = 1"
        by (metis assms(1) div_nat_eqI mult.commute mult_2 nat_mult_1_right plus_1_eq_Suc
            mult_Suc_right One_nat_def)
      moreover from False have "?n = 0" using assms(1) by simp
      ultimately show ?thesis by simp
    qed
    have lt: "length xs - (i + s) < length xs - i" using True assms(1) by simp
    have "chunkArray_loop_st (g @ Array os # m) arr s i (VRef (length g)) =
        chunkArray_loop_st (g @ Array (os @ [VRef ?L]) # (m @ [Array (slice xs i (i + s))]))
          arr s (i + s) (VRef (length g))"
      using True el by (subst chunkArray_loop_st.simps) (simp add: alloc_def)
    also have "\<dots> = Some (g @ Array ((os @ [VRef ?L]) @ map VRef [Suc ?L ..< Suc ?L + ?n])
             # ((m @ [Array (slice xs i (i + s))])
                 @ map (\<lambda>k. Array (slice xs (i + s + k * s) (i + s + k * s + s))) [0..<?n]))"
      using less [OF lt, of "os @ [VRef ?L]" "m @ [Array (slice xs i (i + s))]"] by simp
    also have "(os @ [VRef ?L]) @ map VRef [Suc ?L ..< Suc ?L + ?n]
        = os @ map VRef [?L ..< ?L + Suc ?n]"
      by (simp add: upt_conv_Cons del: upt_Suc)
    also have "(m @ [Array (slice xs i (i + s))])
                 @ map (\<lambda>k. Array (slice xs (i + s + k * s) (i + s + k * s + s))) [0..<?n]
        = m @ map (\<lambda>k. Array (slice xs (i + k * s) (i + k * s + s))) [0..<Suc ?n]"
      by (simp add: map_upt_Suc del: upt_Suc add: add.commute add.left_commute add.assoc)
    finally show ?thesis by (simp only: n)
  qed
qed

lemma map_loop_st_closed:
  assumes "elems g chunks = Some cs0"
  shows "map_loop_st (g @ Array os # m) chunks cs idx (VRef (length g)) =
     Some (g @ Array (os @ map VRef [length g + 1 + length m ..< length g + 1 + length m + length cs])
             # (m @ map (post_obj (length cs0) idx) (zip cs [0..<length cs])))"
proof (induction cs arbitrary: os m idx)
  case Nil
  show ?case by simp
next
  case (Cons c cs)
  let ?L = "length g + 1 + length m"
  let ?p = "Object [(''images'', c), (''text'', VStr ''''),
                               (''index'', VNum (idx + 1)), (''total'', VNum (length cs0 + 1))]"
  have el: "elems (g @ Array os # m) chunks = Some cs0"
    using assms by (rule elems_append)
  have "map_loop_st (g @ Array os # m) chunks (c # cs) idx (VRef (length g)) =
      map_loop_st (g @ Array (os @ [VRef ?L]) # (m @ [?p])) chunks cs (idx + 1) (VRef (length g))"
    using el by (simp add: chunkPost_st_def alloc_def)
  also have "\<dots> = Some (g @ Array ((os @ [VRef ?L]) @ map VRef [Suc ?L ..< Suc ?L + length cs])
             # ((m @ [?p]) @ map (post_obj (length cs0) (idx + 1)) (zip cs [0..<length cs])))"
    using Cons [of "os @ [VRef ?L]" "m @ [?p]" "idx + 1"] by simp
  also have "(os @ [VRef ?L]) @ map VRef [Suc ?L ..< Suc ?L + length cs]
        = os @ map VRef [?L ..< ?L + length (c # cs)]"
    by (simp add: upt_conv_Cons del: upt_Suc)
  also have "(m @ [?p]) @ map (post_obj (length cs0) (idx + 1)) (zip cs [0..<length cs])
        = m @ map (post_obj (length cs0) idx) (zip (c # cs) [0..<length (c # cs)])"
  proof -
    have "[0..<length (c # cs)] = 0 # map Suc [0..<length cs]"
      by (simp add: upt_conv_Cons map_Suc_upt del: upt_Suc)
    then show ?thesis by (auto simp: post_obj_def zip_map2 simp del: upt_Suc)
  qed
  finally show ?case .
qed

lemma chunkArray_st_closed:
  assumes "0 < s" and "elems h arr = Some xs"
  shows "chunkArray_st h arr s =
     Some (h @ Array (map VRef [length h + 1 ..< length h + 1 + (length xs + s - 1) div s])
             # map (\<lambda>k. Array (slice xs (k * s) (k * s + s))) [0..<(length xs + s - 1) div s],
           VRef (length h))"
  using chunkArray_loop_st_closed [OF assms, of "[]" "[]" 0]
  by (simp add: chunkArray_st_def alloc_def)

lemma map_st_closed:
  assumes "elems h chunks = Some cs"
  shows "map_st h chunks =
     Some (h @ Array (map VRef [length h + 1 ..< length h + 1 + length cs])
             # map (post_obj (length cs) 0) (zip cs [0..<length cs]),
           VRef (length h))"
  using map_loop_st_closed [OF assms, of "[]" "[]" cs 0] assms
  by (simp add: map_st_def alloc_def)

lemma length_chunk_refs: "length (chunk_refs L xs) = (length xs + 3) div 4"
  by (simp add: chunk_refs_def)

lemma length_chunk_objs: "length (chunk_objs xs) = (length xs + 3) div 4"
  by (simp add: chunk_objs_def)

lemma length_post_refs: "length (post_refs L xs) = (length xs + 3) div 4"
  by (simp only: post_refs_def length_map length_upt diff_add_inverse)

lemma length_post_objs: "length (post_objs L xs) = (length xs + 3) div 4"
  by (simp add: post_objs_def chunk_refs_def)

lemma buildThreadForEntry_st_closed:
  assumes "truthy v" and "get h v ''images'' = Some iv" and "elems h iv = Some xs"
    and "get h v ''trailingText'' = Some tv"
  shows "buildThreadForEntry_st h v =
     Some (built h xs tv, VRef (length h + (length xs + 3) div 4 + 1))"
proof -
  let ?L = "length h"
  let ?C = "(length xs + 3) div 4"
  let ?h1 = "h @ Array (chunk_refs ?L xs) # chunk_objs xs"
  let ?h2 = "?h1 @ Array (post_refs ?L xs) # post_objs ?L xs"
  have l1: "length ?h1 = ?L + ?C + 1" by (simp add: length_chunk_objs)
  have c: "chunkArray_st h iv 4 = Some (?h1, VRef ?L)"
    using chunkArray_st_closed [of 4 h iv xs] assms(3)
    by (simp add: chunk_objs_def chunk_refs_def add.commute del: upt_Suc)
  have e1: "elems ?h1 (VRef ?L) = Some (chunk_refs ?L xs)" by simp
  have "map_st ?h1 (VRef ?L) =
     Some (?h1 @ Array (map VRef [length ?h1 + 1 ..< length ?h1 + 1 + length (chunk_refs ?L xs)])
             # map (post_obj (length (chunk_refs ?L xs)) 0)
                 (zip (chunk_refs ?L xs) [0..<length (chunk_refs ?L xs)]),
           VRef (length ?h1))"
    by (rule map_st_closed [OF e1])
  also have "map VRef [length ?h1 + 1 ..< length ?h1 + 1 + length (chunk_refs ?L xs)]
      = post_refs ?L xs"
    unfolding l1 length_chunk_refs post_refs_def by (simp add: add.assoc del: upt_Suc)
  also have "map (post_obj (length (chunk_refs ?L xs)) 0)
                 (zip (chunk_refs ?L xs) [0..<length (chunk_refs ?L xs)]) = post_objs ?L xs"
    unfolding length_chunk_refs post_objs_def ..
  finally have m: "map_st ?h1 (VRef ?L) = Some (?h2, VRef (?L + ?C + 1))"
    unfolding l1 .
  have l2: "length ?h2 = ?L + 2 * ?C + 2" by (simp add: length_chunk_objs length_post_objs)
  have g3: "get (?h2 @ [Array []]) v ''trailingText'' = Some tv"
    using get_append [OF assms(4)] by simp
  have e3: "elems (?h2 @ [Array []]) (VRef ?L) = Some (chunk_refs ?L xs)"
    by simp
  have a3: "alloc (Array []) ?h2 = (?h2 @ [Array []], VRef (?L + 2 * ?C + 2))"
    unfolding alloc_def l2 ..
  have l3: "length (?h2 @ [Array []]) = ?L + 2 * ?C + 3" using l2 by simp
  have a4: "alloc ob (?h2 @ [Array []]) = ((?h2 @ [Array []]) @ [ob], VRef (?L + 2 * ?C + 3))" for ob
    unfolding alloc_def l3 ..
  have p: "push ((?h2 @ [Array []]) @ [ob]) (VRef (?L + ?C + 1)) x
      = Some (?h1 @ Array (post_refs ?L xs @ [x]) # (post_objs ?L xs @ [Array [], ob]))" for ob x
    using push_middle [of ?h1 "post_refs ?L xs" "post_objs ?L xs @ [Array [], ob]" x]
    unfolding l1 by simp
  have "buildThreadForEntry_st h v =
     Some (?h1 @ Array (post_refs ?L xs @ [VRef (?L + 2 * ?C + 3)])
             # (post_objs ?L xs @ [Array [], trailing_obj ?L xs tv]), VRef (?L + ?C + 1))"
    unfolding buildThreadForEntry_st_def trailing_obj_def
    using assms(1,2) by (simp only: c m a3 g3 e3 a4 p length_chunk_refs
        if_False not_True_eq_False bind.bind_lunit Let_def prod.case simp_thms)
  then show ?thesis by (simp add: built_def)
qed

lemma those_map_Some:
  "(\<And>x. x \<in> set xs \<Longrightarrow> g x = Some (f x)) \<Longrightarrow> those (map g xs) = Some (map f xs)"
  by (induction xs) simp_all

lemma those_str_of: "those (map (str_of \<circ> VStr) ys) = Some ys"
  by (induction ys) simp_all

lemma those_append_Some:
  "those xs = Some a \<Longrightarrow> those ys = Some b \<Longrightarrow> those (xs @ ys) = Some (a @ b)"
  by (induction xs arbitrary: a) (auto split: option.splits)

lemma map_upt_shift: "map f [a..<a + n] = map (\<lambda>k. f (a + k)) [0..<n]"
  by (induction n) simp_all

lemma slice_map: "slice (map f xs) i j = map f (slice xs i j)"
  by (simp add: slice_def take_map drop_map)

lemma length_built: "length (built h xs tv) = length h + 2 * ((length xs + 3) div 4) + 4"
  by (simp add: built_def length_chunk_objs length_post_objs)

lemma built_prefix: "take (length h) (built h xs tv) = h"
  by (simp add: built_def)

lemma built_old: "a < length h \<Longrightarrow> built h xs tv ! a = h ! a"
  by (simp add: built_def nth_append)

lemma built_chunk:
  "k < (length xs + 3) div 4 \<Longrightarrow> built h xs tv ! (length h + 1 + k) = chunk_objs xs ! k"
  by (simp add: built_def nth_append length_chunk_objs)

lemma built_posts:
  "built h xs tv ! (length h + (length xs + 3) div 4 + 1)
     = Array (post_refs (length h) xs @ [VRef (length h + 2 * ((length xs + 3) div 4) + 3)])"
proof -
  have "built h xs tv = (h @ Array (chunk_refs (length h) xs) # chunk_objs xs)
       @ Array (post_refs (length h) xs @ [VRef (length h + 2 * ((length xs + 3) div 4) + 3)])
       # post_objs (length h) xs @ [Array [], trailing_obj (length h) xs tv]"
    by (simp add: built_def)
  moreover have "length (h @ Array (chunk_refs (length h) xs) # chunk_objs xs)
      = length h + (length xs + 3) div 4 + 1"
    by (simp add: length_chunk_objs)
  ultimately show ?thesis by (metis nth_append_length)
qed

lemma built_tail:
  "built h xs tv = ((h @ Array (chunk_refs (length h) xs) # chunk_objs xs)
       @ [Array (post_refs (length h) xs @ [VRef (length h + 2 * ((length xs + 3) div 4) + 3)])])
       @ (post_objs (length h) xs @ [Array [], trailing_obj (length h) xs tv])"
  by (simp add: built_def)

lemma nth_segment: "length a = n \<Longrightarrow> (a @ b) ! (n + k) = b ! k"
  by (metis nth_append_length_plus)

lemma length_built_head:
  "length ((h @ Array (chunk_refs (length h) xs) # chunk_objs xs)
       @ [Array (post_refs (length h) xs @ [VRef (length h + 2 * ((length xs + 3) div 4) + 3)])])
     = length h + (length xs + 3) div 4 + 2"
  by (simp add: length_chunk_objs)

lemma built_from_posts:
  "built h xs tv ! (length h + (length xs + 3) div 4 + 2 + k)
     = (post_objs (length h) xs @ [Array [], trailing_obj (length h) xs tv]) ! k"
  unfolding built_tail by (rule nth_segment [OF length_built_head])

lemma built_post:
  assumes "k < (length xs + 3) div 4"
  shows "built h xs tv ! (length h + (length xs + 3) div 4 + 2 + k) = post_objs (length h) xs ! k"
  unfolding built_from_posts using assms by (simp add: nth_append length_post_objs)

lemma built_none:
  assumes "C = (length xs + 3) div 4"
  shows "built h xs tv ! (length h + 2 * C + 2) = Array []"
proof -
  have i: "length h + 2 * C + 2 = length h + C + 2 + C" by simp
  have "(post_objs (length h) xs @ [Array [], trailing_obj (length h) xs tv]) ! C = Array []"
    using assms by (simp add: nth_append length_post_objs)
  then show ?thesis unfolding i unfolding assms built_from_posts .
qed

lemma built_trailing:
  assumes "C = (length xs + 3) div 4"
  shows "built h xs tv ! (length h + 2 * C + 3) = trailing_obj (length h) xs tv"
proof -
  have i: "length h + 2 * C + 3 = length h + C + 2 + (C + 1)" by simp
  have "(post_objs (length h) xs @ [Array [], trailing_obj (length h) xs tv]) ! (C + 1)
      = trailing_obj (length h) xs tv"
    using assms by (simp add: nth_append length_post_objs)
  then show ?thesis unfolding i unfolding assms built_from_posts .
qed

lemma read_post_Object:
  assumes "a < length B"
    and "B ! a = Object [(''images'', VRef b), (''text'', VStr t), (''index'', VNum i),
                         (''total'', VNum n)]"
    and "b < length B" and "B ! b = Array (map VStr ys)"
  shows "read_post B (VRef a) = Some \<lparr>images = ys, text' = t, index = i, total' = n\<rparr>"
  using assms by (simp add: read_post_def read_strings_def those_str_of)

lemma post_objs_nth:
  assumes "k < (length xs + 3) div 4"
  shows "post_objs L xs ! k =
     Object [(''images'', VRef (L + 1 + k)), (''text'', VStr ''''), (''index'', VNum (k + 1)),
             (''total'', VNum ((length xs + 3) div 4 + 1))]"
  using assms by (simp add: post_objs_def chunk_refs_def post_obj_def del: upt_Suc)

lemma chunk_objs_nth:
  assumes "k < (length imgs + 3) div 4"
  shows "chunk_objs (map VStr imgs) ! k = Array (map VStr (take 4 (drop (k * 4) imgs)))"
  using assms by (simp add: chunk_objs_def slice_def take_map drop_map del: upt_Suc)

lemma read_post_built_chunk:
  assumes "k < (length imgs + 3) div 4"
  shows "read_post (built h (map VStr imgs) tv) (VRef (length h + (length imgs + 3) div 4 + 2 + k))
     = Some \<lparr>images = take 4 (drop (k * 4) imgs), text' = '''', index = k + 1,
             total' = (length imgs + 3) div 4 + 1\<rparr>"
proof (rule read_post_Object)
  let ?B = "built h (map VStr imgs) tv"
  show "length h + (length imgs + 3) div 4 + 2 + k < length ?B"
    using assms by (simp add: length_built)
  show "?B ! (length h + (length imgs + 3) div 4 + 2 + k) =
     Object [(''images'', VRef (length h + 1 + k)), (''text'', VStr ''''), (''index'', VNum (k + 1)),
             (''total'', VNum ((length imgs + 3) div 4 + 1))]"
    using built_post [of k "map VStr imgs" h tv] post_objs_nth [of k "map VStr imgs" "length h"] assms
    by simp
  show "length h + 1 + k < length ?B" using assms by (simp add: length_built)
  show "?B ! (length h + 1 + k) = Array (map VStr (take 4 (drop (k * 4) imgs)))"
    using built_chunk [of k "map VStr imgs" h tv] chunk_objs_nth [OF assms] assms by simp
qed

lemma read_post_built_trailing:
  "read_post (built h (map VStr imgs) (VStr t)) (VRef (length h + 2 * ((length imgs + 3) div 4) + 3))
     = Some \<lparr>images = [], text' = t, index = (length imgs + 3) div 4 + 1,
             total' = (length imgs + 3) div 4 + 1\<rparr>"
proof (rule read_post_Object)
  let ?B = "built h (map VStr imgs) (VStr t)"
  show "length h + 2 * ((length imgs + 3) div 4) + 3 < length ?B"
    by (simp add: length_built)
  show "?B ! (length h + 2 * ((length imgs + 3) div 4) + 3) =
     Object [(''images'', VRef (length h + 2 * ((length imgs + 3) div 4) + 2)), (''text'', VStr t),
             (''index'', VNum ((length imgs + 3) div 4 + 1)),
             (''total'', VNum ((length imgs + 3) div 4 + 1))]"
    using built_trailing [of "(length imgs + 3) div 4" "map VStr imgs" h "VStr t"]
    by (simp add: trailing_obj_def)
  show "length h + 2 * ((length imgs + 3) div 4) + 2 < length ?B"
    by (simp add: length_built)
  show "?B ! (length h + 2 * ((length imgs + 3) div 4) + 2) = Array (map VStr [])"
    using built_none [of "(length imgs + 3) div 4" "map VStr imgs" h "VStr t"] by simp
qed

lemma read_posts_built:
  "read_posts (built h (map VStr (entryData.images e)) (VStr (trailingText e)))
       (VRef (length h + chunkCount e + 1))
     = buildThreadForEntry (Some e)"
proof -
  let ?imgs = "entryData.images e"
  let ?C = "(length ?imgs + 3) div 4"
  let ?B = "built h (map VStr ?imgs) (VStr (trailingText e))"
  let ?f = "\<lambda>k. \<lparr>images = take 4 (drop (k * 4) ?imgs), text' = '''', index = k + 1,
             total' = ?C + 1\<rparr>"
  have el: "elems ?B (VRef (length h + ?C + 1))
      = Some (post_refs (length h) (map VStr ?imgs) @ [VRef (length h + 2 * ?C + 3)])"
    using built_posts [of h "map VStr ?imgs" "VStr (trailingText e)"]
    by (simp add: length_built)
  have pr: "post_refs (length h) (map VStr ?imgs)
      = map (\<lambda>k. VRef (length h + ?C + 2 + k)) [0..<?C]"
    unfolding post_refs_def length_map by (rule map_upt_shift)
  have "those (map (read_post ?B) (map (\<lambda>k. VRef (length h + ?C + 2 + k)) [0..<?C]))
      = Some (map ?f [0..<?C])"
    unfolding map_map comp_def
  proof (rule those_map_Some)
    fix k assume "k \<in> set [0..<?C]"
    then have "k < ?C" by simp
    then show "read_post ?B (VRef (length h + ?C + 2 + k)) = Some (?f k)"
      by (rule read_post_built_chunk)
  qed
  moreover have "those (map (read_post ?B) [VRef (length h + 2 * ?C + 3)])
      = Some [\<lparr>images = [], text' = trailingText e, index = ?C + 1, total' = ?C + 1\<rparr>]"
    by (simp add: read_post_built_trailing)
  ultimately have "those (map (read_post ?B)
        (post_refs (length h) (map VStr ?imgs) @ [VRef (length h + 2 * ?C + 3)]))
      = Some (map ?f [0..<?C] @ [\<lparr>images = [], text' = trailingText e, index = ?C + 1,
             total' = ?C + 1\<rparr>])"
    unfolding pr map_append by (rule those_append_Some)
  with el show ?thesis
    by (simp add: read_posts_def buildThreadForEntry_closed chunkCount_def)
qed

lemma those_str_of_D: "those (map str_of xs) = Some ys \<Longrightarrow> xs = map VStr ys"
proof (induction xs arbitrary: ys)
  case Nil
  then show ?case by simp
next
  case (Cons x xs)
  then show ?case by (cases x) (auto split: option.splits)
qed

lemma str_of_D: "str_of v = Some s \<Longrightarrow> v = VStr s"
  by (cases v) simp_all

lemma read_entry_Some_D:
  assumes "read_entry h v = Some (Some e)"
  shows "truthy v
     \<and> (\<exists>iv. get h v ''images'' = Some iv \<and> elems h iv = Some (map VStr (entryData.images e)))
     \<and> get h v ''trailingText'' = Some (VStr (trailingText e))"
proof -
  from assms have nn: "v \<noteq> VNull" by (auto simp: read_entry_def)
  with assms obtain iv imgs tv t where
    g: "get h v ''images'' = Some iv" "read_strings h iv = Some imgs"
       "get h v ''trailingText'' = Some tv" "str_of tv = Some t"
       "e = \<lparr>entryData.images = imgs, trailingText = t\<rparr>"
    by (auto simp: read_entry_def split: bind_splits)
  from g(2) obtain xs where x: "elems h iv = Some xs" "those (map str_of xs) = Some imgs"
    by (auto simp: read_strings_def split: bind_splits)
  from g(1) x(1) have "truthy v"
    by (cases v) (auto simp: split: if_splits obj.splits option.splits)
  moreover have "elems h iv = Some (map VStr (entryData.images e))"
    using x those_str_of_D [OF x(2)] g(5) by simp
  moreover have "get h v ''trailingText'' = Some (VStr (trailingText e))"
    using g(3,5) str_of_D [OF g(4)] by simp
  ultimately show ?thesis using g(1) by blast
qed

lemma read_entry_None_D: "read_entry h v = Some None \<Longrightarrow> v = VNull"
  by (auto simp: read_entry_def split: if_splits bind_splits)

lemma read_strings_append: "read_strings h v = Some ys \<Longrightarrow> read_strings (h @ m) v = Some ys"
  by (auto simp: read_strings_def elems_append split: bind_splits)

lemma read_entry_append: "read_entry h v = Some e \<Longrightarrow> read_entry (h @ m) v = Some e"
  by (auto simp: read_entry_def get_append read_strings_append split: bind_splits if_splits)

lemma read_post_append: "read_post h v = Some p \<Longrightarrow> read_post (h @ m) v = Some p"
  by (auto simp: read_post_def get_append read_strings_append split: bind_splits)

lemma those_read_post_append:
  "those (map (read_post h) vs) = Some ps \<Longrightarrow> those (map (read_post (h @ m)) vs) = Some ps"
  by (induction vs arbitrary: ps) (auto simp: read_post_append split: option.splits)

lemma read_posts_append: "read_posts h v = Some ps \<Longrightarrow> read_posts (h @ m) v = Some ps"
  by (auto simp: read_posts_def elems_append those_read_post_append split: bind_splits)

lemma extends_append: "take (length h) h' = h \<Longrightarrow> \<exists>m. h' = h @ m"
  by (metis append_take_drop_id)

lemma buildThreadForEntry_st_value:
  assumes "read_entry h v = Some e"
  shows "\<exists>h' r. buildThreadForEntry_st h v = Some (h', r)
      \<and> take (length h) h' = h
      \<and> read_posts h' r = buildThreadForEntry e
      \<and> buildThreadForEntry e \<noteq> None"
proof (cases e)
  case None
  with assms have "v = VNull" by (simp add: read_entry_None_D)
  with None show ?thesis
    by (simp add: buildThreadForEntry_st_def alloc_def read_posts_def buildThreadForEntry_def)
next
  case (Some d)
  with assms have "read_entry h v = Some (Some d)" by simp
  from read_entry_Some_D [OF this] obtain iv where
    t: "truthy v" and g: "get h v ''images'' = Some iv"
    and el: "elems h iv = Some (map VStr (entryData.images d))"
    and tt: "get h v ''trailingText'' = Some (VStr (trailingText d))" by blast
  let ?B = "built h (map VStr (entryData.images d)) (VStr (trailingText d))"
  have "buildThreadForEntry_st h v = Some (?B, VRef (length h + chunkCount d + 1))"
    using buildThreadForEntry_st_closed [OF t g el tt] by (simp add: chunkCount_def)
  moreover have "take (length h) ?B = h" by (rule built_prefix)
  moreover have "read_posts ?B (VRef (length h + chunkCount d + 1)) = buildThreadForEntry (Some d)"
    by (rule read_posts_built)
  moreover have "buildThreadForEntry (Some d) \<noteq> None"
    by (simp add: buildThreadForEntry_closed)
  ultimately show ?thesis using Some by blast
qed

text \<open>
  Claim C5. Let a value of a store stand for an entry (or be \<open>null\<close>). The call returns;
  every object that was in the store is as it was, so the entry and its array of images
  are not changed; and the array returned reads back as the result of the function on
  values above, that is, it depends on nothing but the entry. A second call on the same
  entry returns an array that reads back the same and leaves the first one as it was, and
  so does a call on a value that stands for the same entry in any other store.
\<close>

theorem buildThreadForEntry_pure_deterministic:
  assumes "read_entry h v = Some e" and "read_entry g w = Some e"
  shows "\<exists>h1 r1 h2 r2 g1 s1.
       buildThreadForEntry_st h v = Some (h1, r1)
     \<and> take (length h) h1 = h
     \<and> read_entry h1 v = Some e
     \<and> read_posts h1 r1 = buildThreadForEntry e
     \<and> buildThreadForEntry e \<noteq> None
     \<and> buildThreadForEntry_st h1 v = Some (h2, r2)
     \<and> take (length h1) h2 = h1
     \<and> read_posts h2 r2 = read_posts h2 r1
     \<and> read_posts h2 r1 = read_posts h1 r1
     \<and> buildThreadForEntry_st g w = Some (g1, s1)
     \<and> take (length g) g1 = g
     \<and> read_posts g1 s1 = read_posts h1 r1"
proof -
  from buildThreadForEntry_st_value [OF assms(1)] obtain h1 r1 where
    a: "buildThreadForEntry_st h v = Some (h1, r1)" "take (length h) h1 = h"
       "read_posts h1 r1 = buildThreadForEntry e" "buildThreadForEntry e \<noteq> None"
    by blast
  from extends_append [OF a(2)] obtain m where m: "h1 = h @ m" ..
  have e1: "read_entry h1 v = Some e"
    unfolding m using assms(1) by (rule read_entry_append)
  from buildThreadForEntry_st_value [OF e1] obtain h2 r2 where
    b: "buildThreadForEntry_st h1 v = Some (h2, r2)" "take (length h1) h2 = h1"
       "read_posts h2 r2 = buildThreadForEntry e"
    by blast
  from extends_append [OF b(2)] obtain n where n: "h2 = h1 @ n" ..
  from a(3,4) obtain ps where ps: "read_posts h1 r1 = Some ps" by auto
  then have s: "read_posts h2 r1 = Some ps"
    unfolding n by (rule read_posts_append)
  from buildThreadForEntry_st_value [OF assms(2)] obtain g1 s1 where
    c: "buildThreadForEntry_st g w = Some (g1, s1)" "take (length g) g1 = g"
       "read_posts g1 s1 = buildThreadForEntry e"
    by blast
  from a b c e1 ps s show ?thesis by simp
qed

text \<open>Five images and the text T, in two stores.\<close>

theorem buildThreadForEntry_pure_deterministic_witness:
  "read_entry store_5 (VRef 1) = Some (Some entry_5)
   \<and> read_entry store_5' (VRef 0) = Some (Some entry_5)
   \<and> (\<exists>h1 r1 h2 r2 g1 s1.
         buildThreadForEntry_st store_5 (VRef 1) = Some (h1, r1)
       \<and> take 2 h1 = store_5
       \<and> read_entry h1 (VRef 1) = Some (Some entry_5)
       \<and> read_posts h1 r1 = Some posts_5
       \<and> buildThreadForEntry_st h1 (VRef 1) = Some (h2, r2)
       \<and> read_posts h2 r2 = Some posts_5
       \<and> read_posts h2 r1 = Some posts_5
       \<and> buildThreadForEntry_st store_5' (VRef 0) = Some (g1, s1)
       \<and> take 3 g1 = store_5'
       \<and> read_posts g1 s1 = Some posts_5)"
proof -
  have a: "read_entry store_5 (VRef 1) = Some (Some entry_5)"
    by (simp add: store_5_def entry_5_def read_entry_def read_strings_def)
  have b: "read_entry store_5' (VRef 0) = Some (Some entry_5)"
    by (simp add: store_5'_def entry_5_def read_entry_def read_strings_def)
  have v: "buildThreadForEntry (Some entry_5) = Some posts_5"
    by (simp add: buildThreadForEntry_closed entry_5_def posts_5_def chunkCount_def upt_conv_Cons)
  have l: "length store_5 = 2" "length store_5' = 3"
    by (simp_all add: store_5_def store_5'_def)
  from buildThreadForEntry_pure_deterministic [OF a b] a b v l show ?thesis
    by auto
qed

section \<open>Properties of the image resolution\<close>




lemma settle_unmounted_view:
  assumes "\<not> isMounted (requests s ! rid)"
  shows "image' (step (Settle rid r) s) = image' s \<and> loading (step (Settle rid r) s) = loading s"
  using assms by (cases r) (simp_all add: loadImages_def loadImages_try_def Let_def)


lemma flags_ok_init: "flags_ok init"
  by (simp add: flags_ok_def init_def)

lemma requests_cleanup_nth:
  "i < length (requests s) \<Longrightarrow>
     isMounted (requests (cleanup s) ! i) = (isMounted (requests s ! i) \<and> Suc i \<noteq> length (requests s))"
  by (auto simp: cleanup_def nth_list_update last_conv_nth)

lemma length_requests_cleanup: "length (requests (cleanup s)) = length (requests s)"
  by (simp add: cleanup_def)

lemma alive_cleanup: "alive (cleanup s) = alive s"
  by (simp add: cleanup_def)

lemma requests_settle:
  "requests (step (Settle rid r) s) =
     (if rid < length (requests s) \<and> \<not> settled (requests s ! rid)
      then (requests s)[rid := (requests s ! rid)\<lparr>settled := True\<rparr>] else requests s)"
  by (simp add: split: sum.splits)

lemma alive_settle: "alive (step (Settle rid r) s) = alive s"
  by (cases r) (simp_all add: loadImages_def loadImages_try_def Let_def)

lemma isMounted_settle:
  "i < length (requests s) \<Longrightarrow>
     isMounted (requests (step (Settle rid r) s) ! i) = isMounted (requests s ! i)"
  by (simp add: requests_settle nth_list_update del: step.simps)

lemma flags_ok_step: "flags_ok s \<Longrightarrow> flags_ok (step e s)"
proof (cases e)
  case (RunEffect src)
  assume ok: "flags_ok s"
  show ?thesis
  proof (cases "alive s")
    case False
    with ok RunEffect show ?thesis by simp
  next
    case True
    have "isMounted ((requests (cleanup s) @ [rq]) ! i) \<longrightarrow> i = length (requests s)"
      if "i < Suc (length (requests s))" for i rq
    proof (cases "i < length (requests s)")
      case True
      with ok have "\<not> isMounted (requests (cleanup s) ! i)"
        by (auto simp: requests_cleanup_nth flags_ok_def)
      with True show ?thesis by (simp add: nth_append length_requests_cleanup)
    next
      case False
      with that show ?thesis by simp
    qed
    with True RunEffect show ?thesis
      by (simp add: flags_ok_def effect_def length_requests_cleanup alive_cleanup)
  qed
next
  case Unmount
  assume ok: "flags_ok s"
  then show ?thesis using Unmount
    by (auto simp: flags_ok_def requests_cleanup_nth length_requests_cleanup alive_cleanup)
next
  case (Settle rid r)
  assume ok: "flags_ok s"
  have l: "length (requests (step (Settle rid r) s)) = length (requests s)"
    by (simp add: requests_settle del: step.simps)
  show ?thesis unfolding Settle flags_ok_def l alive_settle
    using ok by (simp add: isMounted_settle flags_ok_def del: step.simps)
qed

lemma flags_ok_run: "flags_ok s \<Longrightarrow> flags_ok (run evs s)"
  by (induction evs arbitrary: s) (simp_all add: flags_ok_step)

lemma torn_down_Unmount:
  assumes "flags_ok s"
  shows "torn_down (step Unmount s)"
proof (cases "alive s")
  case False
  with assms show ?thesis by (auto simp: torn_down_def flags_ok_def in_set_conv_nth)
next
  case True
  have "\<not> isMounted (requests (cleanup s) ! i)" if "i < length (requests s)" for i
    using that assms True by (auto simp: requests_cleanup_nth flags_ok_def)
  with True show ?thesis
    by (auto simp: torn_down_def in_set_conv_nth length_requests_cleanup)
qed

lemma torn_down_step:
  assumes "torn_down s"
  shows "torn_down (step e s) \<and> image' (step e s) = image' s \<and> loading (step e s) = loading s"
proof (cases e)
  case (RunEffect src)
  with assms show ?thesis by (simp add: torn_down_def)
next
  case Unmount
  with assms show ?thesis by (simp add: torn_down_def)
next
  case (Settle rid r)
  show ?thesis
  proof (cases "rid < length (requests s) \<and> \<not> settled (requests s ! rid)")
    case False
    with assms Settle show ?thesis by auto
  next
    case True
    with assms have nm: "\<not> isMounted (requests s ! rid)" by (simp add: torn_down_def)
    have "\<not> isMounted rq" if "rq \<in> set (requests (step (Settle rid r) s))" for rq
    proof -
      from that obtain i where i: "i < length (requests (step (Settle rid r) s))"
        "rq = requests (step (Settle rid r) s) ! i" by (auto simp: in_set_conv_nth)
      then have i': "i < length (requests s)" by (simp add: requests_settle del: step.simps split: if_splits)
      with i have "isMounted rq = isMounted (requests s ! i)" by (simp add: isMounted_settle del: step.simps)
      with assms i' show ?thesis by (simp add: torn_down_def)
    qed
    with assms settle_unmounted_view [OF nm, of r] show ?thesis
      unfolding Settle torn_down_def alive_settle by blast
  qed
qed

lemma torn_down_run:
  "torn_down s \<Longrightarrow> torn_down (run evs s) \<and> image' (run evs s) = image' s \<and> loading (run evs s) = loading s"
proof (induction evs arbitrary: s)
  case Nil
  then show ?case by simp
next
  case (Cons e evs)
  from torn_down_step [OF Cons.prems, of e] Cons.IH [of "step e s"] show ?case by simp
qed


lemma view_Unmount:
  "image' (step Unmount s) = image' s \<and> loading (step Unmount s) = loading s"
  by (simp add: cleanup_def)





subsection \<open>The steps that change what is shown\<close>













text \<open>
  Claim C7. A response that arrives for a request whose flag is cleared changes neither
  \<open>image\<close> nor \<open>loading\<close>, whatever the response is. Once a component is unmounted,
  in whatever state it was, every one of its flags is cleared and stays so, and whatever
  happens afterwards leaves \<open>image\<close>, \<open>loading\<close> and what is rendered as they were at
  the time of the unmount. (A late failure still writes its line on the console.)
\<close>

theorem teardown_discards_late_result:
  "(\<not> isMounted (requests s ! rid) \<longrightarrow>
       image' (step (Settle rid r) s) = image' s \<and> loading (step (Settle rid r) s) = loading s)
   \<and> (\<forall>rq \<in> set (requests (run evs (step Unmount (run evs0 init)))). \<not> isMounted rq)
   \<and> image' (run evs (step Unmount (run evs0 init))) = image' (run evs0 init)
   \<and> loading (run evs (step Unmount (run evs0 init))) = loading (run evs0 init)
   \<and> render (run evs (step Unmount (run evs0 init))) = render (run evs0 init)"
proof -
  have "flags_ok (run evs0 init)" by (rule flags_ok_run [OF flags_ok_init])
  then have "torn_down (step Unmount (run evs0 init))" by (rule torn_down_Unmount)
  from torn_down_run [OF this, of evs] view_Unmount [of "run evs0 init"]
    settle_unmounted_view [of s rid r]
  show ?thesis by (simp add: torn_down_def render_def)
qed

text \<open>Unmounted before the response: the image stays empty and the state pending.\<close>

theorem teardown_discards_late_result_witness:
  "\<not> isMounted (requests (run [RunEffect ''u'', Unmount] init) ! 0)
   \<and> image' (step (Settle 0 (Json (Str ''image/png'') (Str ''AAAA''))) (run [RunEffect ''u'', Unmount] init)) = ''''
   \<and> loading (step (Settle 0 (Json (Str ''image/png'') (Str ''AAAA''))) (run [RunEffect ''u'', Unmount] init))
   \<and> map isMounted (requests (run [Settle 0 JsonNull] (step Unmount (run [RunEffect ''u''] init))))
        = [False]"
proof -
  let ?s = "run [RunEffect ''u'', Unmount] init"
  have h: "\<not> isMounted (requests ?s ! 0)"
    by (simp add: init_def effect_def cleanup_def)
  have v: "image' ?s = ''''" "loading ?s"
    by (simp_all add: init_def effect_def cleanup_def)
  have n: "length (requests (run [Settle 0 JsonNull] (step Unmount (run [RunEffect ''u''] init)))) = 1"
    by (simp add: init_def effect_def cleanup_def loadImages_def loadImages_try_def)
  from teardown_discards_late_result [of ?s 0 "Json (Str ''image/png'') (Str ''AAAA'')"
      "[Settle 0 JsonNull]" "[RunEffect ''u'']"] h v n
  show ?thesis by (auto simp: length_Suc_conv)
qed




section \<open>Properties of postToX\<close>

lemma postToX_not_set:
  assumes "getProperty env ''bearerToken'' = None \<or> getProperty env ''bearerToken'' = Some ''''"
  shows "postToX env entry =
     (Inl (Error ''bearerToken is not set in script properties.''), \<lparr>fetched = [], logged = []\<rparr>)"
  using assms by (auto simp: postToX_def)

lemma postToX_response:
  assumes "getProperty env ''bearerToken'' = Some bearerToken" and "bearerToken \<noteq> ''''"
    and "fetch env url (params env bearerToken) = Inr response"
  shows "postToX env entry =
     (if getResponseCode response = 200
      then (JSON_parse env (getContentText response),
            \<lparr>fetched = [(url, params env bearerToken)], logged = []\<rparr>)
      else (Inl (Error (''Failed to post entry to X: '' @ getContentText response)),
            \<lparr>fetched = [(url, params env bearerToken)],
             logged = [''Error posting to X: '' @ getContentText response]\<rparr>))"
  using assms by (simp add: postToX_def Let_def)

lemma fetched_postToX:
  "fetched (snd (postToX env entry)) =
     (case getProperty env ''bearerToken'' of
        None \<Rightarrow> []
      | Some bearerToken \<Rightarrow>
          if bearerToken = '''' then [] else [(url, params env bearerToken)])"
  by (simp add: postToX_def Let_def split: option.splits sum.splits)

text \<open>
  Claim C9, amended. Without a token \<open>postToX\<close> throws before any request is sent. With
  a token and a response, a status other than 200 throws an error whose message ends with
  the body of the response, and a status of 200 gives \<open>JSON.parse\<close> of the body: the
  parsed value, or the error of the parser when the body is not JSON.
\<close>

theorem postToX_errors:
  "(getProperty env ''bearerToken'' = None \<longrightarrow>
      postToX env entry =
        (Inl (Error ''bearerToken is not set in script properties.''),
         \<lparr>fetched = [], logged = []\<rparr>))
   \<and> (getProperty env ''bearerToken'' = Some bearerToken \<longrightarrow> bearerToken \<noteq> '''' \<longrightarrow>
       fetch env url (params env bearerToken) = Inr response \<longrightarrow>
         (getResponseCode response \<noteq> 200 \<longrightarrow>
            fst (postToX env entry) =
              Inl (Error (''Failed to post entry to X: '' @ getContentText response)))
         \<and> (getResponseCode response = 200 \<longrightarrow>
            fst (postToX env entry) = JSON_parse env (getContentText response)))"
  using postToX_not_set [of env entry] postToX_response [of env bearerToken response entry]
  by simp

text \<open>No token; a response 403; a response 200 with a body that parses.\<close>

theorem postToX_errors_witness:
  "getProperty env_missing ''bearerToken'' = None
   \<and> postToX env_missing entry_T =
        (Inl (Error ''bearerToken is not set in script properties.''), \<lparr>fetched = [], logged = []\<rparr>)
   \<and> getProperty (env_status 403 ''Forbidden'') ''bearerToken'' = Some ''tok''
   \<and> fst (postToX (env_status 403 ''Forbidden'') entry_T) =
        Inl (Error ''Failed to post entry to X: Forbidden'')
   \<and> fst (postToX (env_status 200 ''{}'') entry_T) = Inr ''{}''"
proof -
  have a: "getProperty env_missing ''bearerToken'' = None" by (simp add: env_missing_def)
  have b: "getProperty (env_status c b) ''bearerToken'' = Some ''tok''" "''tok'' \<noteq> ''''"
    "fetch (env_status c b) url (params (env_status c b) ''tok'')
       = Inr \<lparr>getResponseCode = c, getContentText = b\<rparr>"
    "JSON_parse (env_status c b) ''{}'' = Inr ''{}''" for c b
    by (simp_all add: env_status_def)
  from postToX_errors [where env = env_missing and entry = entry_T] a
    postToX_errors [where env = "env_status 403 ''Forbidden''" and bearerToken = "''tok''"
       and response = "\<lparr>getResponseCode = 403, getContentText = ''Forbidden''\<rparr>"
       and entry = entry_T]
    postToX_errors [where env = "env_status 200 ''{}''" and bearerToken = "''tok''"
       and response = "\<lparr>getResponseCode = 200, getContentText = ''{}''\<rparr>"
       and entry = entry_T] b
  show ?thesis by simp
qed

text \<open>
  Claim C9 as it is written says that a response 200 does not raise. With the empty body
  it does: \<open>JSON.parse\<close> throws and nothing catches it.
\<close>

theorem postToX_200_raises_counterexample:
  "fetch (env_status 200 '''') url (params (env_status 200 '''') ''tok'')
     = Inr \<lparr>getResponseCode = 200, getContentText = ''''\<rparr>
   \<and> fst (postToX (env_status 200 '''') entry_T)
     = Inl (Error ''SyntaxError: Unexpected end of JSON input'')"
  by (simp add: postToX_def env_status_def)

text \<open>
  Claim C10. On one platform \<open>postToX\<close> does the same for any two entries, and the
  payload of every request it sends is \<open>JSON.stringify({text: "Test"})\<close>, sent to the
  same address.
\<close>

theorem postToX_ignores_entry:
  "postToX env entry1 = postToX env entry2
   \<and> (\<forall>(u, p) \<in> set (fetched (snd (postToX env entry1))).
         u = ''https://api.twitter.com/2/tweets''
         \<and> payload p = JSON_stringify env [(''text'', ''Test'')])"
  by (simp add: postToX_def Let_def url_def params_def split: option.splits sum.splits)

text \<open>Two different entries, one request each, the same.\<close>

theorem postToX_ignores_entry_witness:
  "postToX (env_status 200 ''{}'') \<lparr>entryData.images = [''a''], trailingText = ''T''\<rparr>
     = postToX (env_status 200 ''{}'') \<lparr>entryData.images = [], trailingText = ''''\<rparr>
   \<and> fetched (snd (postToX (env_status 200 ''{}'') \<lparr>entryData.images = [''a''], trailingText = ''T''\<rparr>)) \<noteq> []
   \<and> map (\<lambda>(u, p). (u, payload p)) (fetched (snd (postToX (env_status 200 ''{}'')
                \<lparr>entryData.images = [''a''], trailingText = ''T''\<rparr>)))
        = [(''https://api.twitter.com/2/tweets'', ''text:Test'')]"
proof -
  have s: "JSON_stringify (env_status 200 ''{}'') [(''text'', ''Test'')] = ''text:Test''"
    by (simp add: env_status_def)
  have n: "length (fetched (snd (postToX (env_status 200 ''{}'')
      \<lparr>entryData.images = [''a''], trailingText = ''T''\<rparr>))) = 1"
    by (simp add: fetched_postToX env_status_def)
  from postToX_ignores_entry [of "env_status 200 ''{}''"
      "\<lparr>entryData.images = [''a''], trailingText = ''T''\<rparr>"
      "\<lparr>entryData.images = [], trailingText = ''''\<rparr>"] s n
  show ?thesis by (auto simp: length_Suc_conv)
qed

end
